theory Spec2Isabelle
  imports Main "HOL-Library.Sublist"
begin

section \<open>Living Inventory Management: the data\<close>

text \<open>
  The program (\<^verbatim>\<open>app.py\<close>) keeps one list of items in the session state and rewrites
  the file \<^verbatim>\<open>inventory.json\<close> after every change. An item is the dictionary built by
  the "Add Item" handler (lines 42-50); it always has the same seven keys, so it is
  modelled as a record. \<open>id\<close> and \<open>quantity\<close> are Python integers (unbounded, so
  \<open>int\<close>; the interpreter's limit on the digits of a number it converts to text is
  not modelled), the other fields are strings, and \<open>price\<close> is a Python float.

  A Python float is not computed with anywhere in the operations modelled here: it is
  stored, replaced and written to the file. It is represented by the text that
  \<^verbatim>\<open>json.dump\<close> writes for it (\<^verbatim>\<open>repr\<close> of the float, for example \<^verbatim>\<open>9.99\<close>), which
  determines the float.

  The strings of a record and the text of the file are lists of characters with code
  points below 256. The strings of the values that \<^verbatim>\<open>json\<close> reads and writes are lists of
  code points (\<open>pystr\<close>), since an escape \<^verbatim>\<open>\uXXXX\<close> in a file can stand for any of them;
  \<open>code_points\<close> is a string of a record as such a list.
\<close>

type_synonym pyfloat = string

type_synonym pystr = "nat list"

definition code_points :: "string \<Rightarrow> pystr" where
  "code_points s = map of_char s"

record item =
  item_id :: int
  name :: string
  category :: string
  quantity :: int
  price :: pyfloat
  care_instructions :: string
  date_added :: string

text \<open>
  The values that \<^verbatim>\<open>json.load\<close> can return and \<^verbatim>\<open>json.dump\<close> can write. A dictionary
  keeps its keys in insertion order, so it is an association list.
\<close>

datatype pyval =
    PyNone
  | PyBool bool
  | PyInt int
  | PyFloat pyfloat
  | PyStr pystr
  | PyList "pyval list"
  | PyDict "(pystr \<times> pyval) list"

text \<open>The dictionary of lines 42-50, and the list of them held in the session state.\<close>

definition py_of_item :: "item \<Rightarrow> pyval" where
  "py_of_item it = PyDict
     [(code_points ''id'', PyInt (item_id it)),
      (code_points ''name'', PyStr (code_points (name it))),
      (code_points ''category'', PyStr (code_points (category it))),
      (code_points ''quantity'', PyInt (quantity it)),
      (code_points ''price'', PyFloat (price it)),
      (code_points ''care_instructions'', PyStr (code_points (care_instructions it))),
      (code_points ''date_added'', PyStr (code_points (date_added it)))]"

definition py_of_inventory :: "item list \<Rightarrow> pyval" where
  "py_of_inventory items = PyList (map py_of_item items)"

section \<open>Writing JSON: \<^verbatim>\<open>json.dump\<close> with its default arguments\<close>

text \<open>
  \<^verbatim>\<open>json.dump(obj, f)\<close> writes integers in decimal, floats by \<^verbatim>\<open>repr\<close>, strings between
  double quotes with \<^verbatim>\<open>ensure_ascii\<close> escaping, and separates the elements of a list or
  dictionary by \<^verbatim>\<open>", "\<close> and a key from its value by \<^verbatim>\<open>": "\<close>.
\<close>

definition digit_char :: "nat \<Rightarrow> char" where
  "digit_char d = char_of (48 + d)"

function nat_repr :: "nat \<Rightarrow> string" where
  "nat_repr n = (if n < 10 then [digit_char n] else nat_repr (n div 10) @ [digit_char (n mod 10)])"
  by pat_completeness auto
termination
  by (relation "measure (\<lambda>n. n)") auto

definition int_repr :: "int \<Rightarrow> string" where
  "int_repr i = (if i < 0 then CHR ''-'' # nat_repr (nat (- i)) else nat_repr (nat i))"

definition hex_char :: "nat \<Rightarrow> char" where
  "hex_char d = (if d < 10 then char_of (48 + d) else char_of (87 + d))"

text \<open>
  \<^verbatim>\<open>ESCAPE_DCT\<close> gives the two-character escapes; every other code point outside
  \<^verbatim>\<open>' '..'~'\<close> is written as \<^verbatim>\<open>\uxxxx\<close> with lower-case hexadecimal digits, and a code
  point from \<^verbatim>\<open>0x10000\<close> on as the two escapes of its surrogate pair.
\<close>

definition hex4 :: "nat \<Rightarrow> string" where
  "hex4 n = [hex_char (n div 4096 mod 16), hex_char (n div 256 mod 16),
             hex_char (n div 16 mod 16), hex_char (n mod 16)]"

definition escape_char :: "nat \<Rightarrow> string" where
  "escape_char n =
     (if n = 0x5C then [CHR 0x5C, CHR 0x5C]
      else if n = 0x22 then [CHR 0x5C, CHR 0x22]
      else if n = 0x08 then [CHR 0x5C, CHR ''b'']
      else if n = 0x0C then [CHR 0x5C, CHR ''f'']
      else if n = 0x0A then [CHR 0x5C, CHR ''n'']
      else if n = 0x0D then [CHR 0x5C, CHR ''r'']
      else if n = 0x09 then [CHR 0x5C, CHR ''t'']
      else if 32 \<le> n \<and> n \<le> 126 then [char_of n]
      else if n < 0x10000 then CHR 0x5C # CHR ''u'' # hex4 n
      else CHR 0x5C # CHR ''u'' # hex4 (0xD800 + (n - 0x10000) div 1024) @
           CHR 0x5C # CHR ''u'' # hex4 (0xDC00 + (n - 0x10000) mod 1024))"

definition encode_basestring_ascii :: "pystr \<Rightarrow> string" where
  "encode_basestring_ascii s = CHR 0x22 # concat (map escape_char s) @ [CHR 0x22]"

fun join_items :: "string list \<Rightarrow> string" where
  "join_items [] = []"
| "join_items [x] = x"
| "join_items (x # y # ys) = x @ '', '' @ join_items (y # ys)"

fun json_dumps :: "pyval \<Rightarrow> string" where
  "json_dumps PyNone = ''null''"
| "json_dumps (PyBool b) = (if b then ''true'' else ''false'')"
| "json_dumps (PyInt i) = int_repr i"
| "json_dumps (PyFloat r) = r"
| "json_dumps (PyStr s) = encode_basestring_ascii s"
| "json_dumps (PyList vs) = ''['' @ join_items (map json_dumps vs) @ '']''"
| "json_dumps (PyDict kvs) =
     ''{'' @ join_items (map (\<lambda>kv. encode_basestring_ascii (fst kv) @ '': '' @ json_dumps (snd kv)) kvs) @ ''}''"

section \<open>The session state, the file and \<^verbatim>\<open>save_inventory\<close>\<close>

text \<open>
  The state is the list in \<^verbatim>\<open>st.session_state.inventory\<close> and the text of
  \<^verbatim>\<open>inventory.json\<close> (\<open>None\<close> when the file does not exist).

  \<^verbatim>\<open>open(..., 'w')\<close> and the writes can fail with an \<^verbatim>\<open>OSError\<close>. What the file system
  does is an input of the model: the write goes through, or \<^verbatim>\<open>open\<close> fails and the file
  is untouched, or the file has been truncated and the write fails after some
  characters.
\<close>

datatype io_outcome = Write_ok | Open_fails | Write_fails nat

datatype py_error =
  OSError | UnicodeDecodeError | JSONDecodeError | ValueError | RecursionError | Re_error

datatype outcome = Done | Raised py_error

record app =
  inventory :: "item list"
  disk :: "string option"

definition save_inventory :: "io_outcome \<Rightarrow> app \<Rightarrow> outcome \<times> app" where
  "save_inventory io s =
     (let text = json_dumps (py_of_inventory (inventory s)) in
      case io of
        Open_fails \<Rightarrow> (Raised OSError, s)
      | Write_fails n \<Rightarrow> (Raised OSError, s\<lparr>disk := Some (take n text)\<rparr>)
      | Write_ok \<Rightarrow> (Done, s\<lparr>disk := Some text\<rparr>))"

section \<open>The handlers of \<^verbatim>\<open>main\<close>\<close>

text \<open>
  "Add Item" (lines 41-53). The widgets' values and the formatted time of
  \<^verbatim>\<open>datetime.now()\<close> are the arguments. The item is appended, then the file is written.
\<close>

definition add_item ::
  "io_outcome \<Rightarrow> string \<Rightarrow> string \<Rightarrow> string \<Rightarrow> int \<Rightarrow> pyfloat \<Rightarrow> string \<Rightarrow> app \<Rightarrow> outcome \<times> app" where
  "add_item io now item_name cat qty pr care s =
     (let new_item = \<lparr>item_id = int (length (inventory s)) + 1,
                      name = item_name,
                      category = cat,
                      quantity = qty,
                      price = pr,
                      care_instructions = care,
                      date_added = now\<rparr>
      in save_inventory io (s\<lparr>inventory := inventory s @ [new_item]\<rparr>))"

text \<open>
  "Delete Selected Item" (lines 97-109). The widgets are only there when the inventory
  is not empty (line 59). The list comprehension of lines 103-106 is assigned to the
  session state, then the file is written.
\<close>

definition delete_selected :: "io_outcome \<Rightarrow> int \<Rightarrow> app \<Rightarrow> outcome \<times> app" where
  "delete_selected io item_to_delete s =
     (if inventory s = [] then (Done, s)
      else save_inventory io
             (s\<lparr>inventory := [it \<leftarrow> inventory s. item_id it \<noteq> item_to_delete]\<rparr>))"

text \<open>
  "Update Price" (lines 116-142). \<open>current_item\<close> is the first item with the selected id
  (line 127); the button exists only when there is one. The loop of lines 138-140
  assigns the price of every item with that id.
\<close>

fun set_prices :: "int \<Rightarrow> pyfloat \<Rightarrow> item list \<Rightarrow> item list" where
  "set_prices item_to_update new_price [] = []"
| "set_prices item_to_update new_price (it # rest) =
     (if item_id it = item_to_update then it\<lparr>price := new_price\<rparr> else it)
       # set_prices item_to_update new_price rest"

definition update_price :: "io_outcome \<Rightarrow> int \<Rightarrow> pyfloat \<Rightarrow> app \<Rightarrow> outcome \<times> app" where
  "update_price io item_to_update new_price s =
     (if inventory s = [] then (Done, s)
      else case find (\<lambda>it. item_id it = item_to_update) (inventory s) of
             None \<Rightarrow> (Done, s)
           | Some current_item \<Rightarrow>
               save_inventory io
                 (s\<lparr>inventory := set_prices item_to_update new_price (inventory s)\<rparr>))"

text \<open>
  The category filter of the "View Inventory" tab (lines 73-75): with no category
  selected the table is left as it is, otherwise the rows whose category is among the
  selected ones are kept.
\<close>

definition filter_by_categories :: "string list \<Rightarrow> item list \<Rightarrow> item list" where
  "filter_by_categories category_filter df =
     (if category_filter = [] then df
      else [row \<leftarrow> df. category row \<in> set category_filter])"

section \<open>Reading JSON: \<^verbatim>\<open>json.load\<close>\<close>

text \<open>
  The decoder of the \<^verbatim>\<open>json\<close> module: \<^verbatim>\<open>scanstring\<close> reads a string after its opening
  quote, \<^verbatim>\<open>match_number\<close> is the regular expression \<^verbatim>\<open>NUMBER_RE\<close>, \<^verbatim>\<open>scan_once\<close> reads
  one value and \<^verbatim>\<open>parse_array\<close> and \<^verbatim>\<open>parse_object\<close> are the loops of \<^verbatim>\<open>JSONArray\<close> and
  \<^verbatim>\<open>JSONObject\<close>. Each returns the value and the text left, or \<open>None\<close> where the module
  raises \<^verbatim>\<open>JSONDecodeError\<close>. A number with a fraction or an exponent is a float and is
  kept as its text. An escape \<^verbatim>\<open>\uXXXX\<close> stands for its code point; the escape of a
  high surrogate followed by the escape of a low surrogate stands for the code point of
  the pair.
\<close>

definition is_ws :: "char \<Rightarrow> bool" where
  "is_ws c = (c = CHR '' '' \<or> c = CHR 0x09 \<or> c = CHR 0x0A \<or> c = CHR 0x0D)"

definition skip_ws :: "string \<Rightarrow> string" where
  "skip_ws s = dropWhile is_ws s"

definition hex_val :: "char \<Rightarrow> nat option" where
  "hex_val c =
     (let n = (of_char c :: nat) in
      if 48 \<le> n \<and> n \<le> 57 then Some (n - 48)
      else if 97 \<le> n \<and> n \<le> 102 then Some (n - 87)
      else if 65 \<le> n \<and> n \<le> 70 then Some (n - 55)
      else None)"

definition decode_uXXXX :: "char \<Rightarrow> char \<Rightarrow> char \<Rightarrow> char \<Rightarrow> nat option" where
  "decode_uXXXX a b c d =
     (case (hex_val a, hex_val b, hex_val c, hex_val d) of
        (Some w, Some x, Some y, Some z) \<Rightarrow> Some (((w * 16 + x) * 16 + y) * 16 + z)
      | _ \<Rightarrow> None)"

definition backslash :: "char \<Rightarrow> char option" where
  "backslash e =
     (if e = CHR 0x22 then Some (CHR 0x22)
      else if e = CHR 0x5C then Some (CHR 0x5C)
      else if e = CHR ''/'' then Some (CHR ''/'')
      else if e = CHR ''b'' then Some (CHR 0x08)
      else if e = CHR ''f'' then Some (CHR 0x0C)
      else if e = CHR ''n'' then Some (CHR 0x0A)
      else if e = CHR ''r'' then Some (CHR 0x0D)
      else if e = CHR ''t'' then Some (CHR 0x09)
      else None)"

definition is_high_surrogate :: "nat \<Rightarrow> bool" where
  "is_high_surrogate n = (0xD800 \<le> n \<and> n \<le> 0xDBFF)"

definition is_low_surrogate :: "nat \<Rightarrow> bool" where
  "is_low_surrogate n = (0xDC00 \<le> n \<and> n \<le> 0xDFFF)"

text \<open>
  What follows the escape of a high surrogate: the escape of a low surrogate (with the
  text after it), a \<^verbatim>\<open>\u\<close> that is not followed by four hexadecimal digits, or
  anything else.
\<close>

datatype following = No_pair | Bad_escape | Low_surrogate nat string

definition following_escape :: "string \<Rightarrow> following" where
  "following_escape s =
     (case s of
        b # u # r \<Rightarrow>
          if b = CHR 0x5C \<and> u = CHR ''u'' then
            (case r of
               a # c # x # d # rest \<Rightarrow>
                 (case decode_uXXXX a c x d of
                    None \<Rightarrow> Bad_escape
                  | Some uni2 \<Rightarrow>
                      if is_low_surrogate uni2 then Low_surrogate uni2 rest else No_pair)
             | _ \<Rightarrow> Bad_escape)
          else No_pair
      | _ \<Rightarrow> No_pair)"

lemma following_escape_shorter:
  "following_escape s = Low_surrogate uni2 rest \<Longrightarrow> length rest < length s"
  by (auto simp: following_escape_def split: list.splits if_splits option.splits)

function scanstring :: "string \<Rightarrow> (pystr \<times> string) option" where
  "scanstring [] = None"
| "scanstring (c # cs) =
     (if c = CHR 0x22 then Some ([], cs)
      else if c = CHR 0x5C then
        (case cs of
           [] \<Rightarrow> None
         | e # cs1 \<Rightarrow>
             if e = CHR ''u'' then
               (case cs1 of
                  a # b # x # d # cs2 \<Rightarrow>
                    (case decode_uXXXX a b x d of
                       None \<Rightarrow> None
                     | Some uni \<Rightarrow>
                         (case (if is_high_surrogate uni then following_escape cs2 else No_pair) of
                            Bad_escape \<Rightarrow> None
                          | Low_surrogate uni2 cs3 \<Rightarrow>
                              (case scanstring cs3 of
                                 None \<Rightarrow> None
                               | Some (str, r) \<Rightarrow>
                                   Some ((0x10000 + (uni - 0xD800) * 1024 + (uni2 - 0xDC00)) # str, r))
                          | No_pair \<Rightarrow>
                              (case scanstring cs2 of
                                 None \<Rightarrow> None
                               | Some (str, r) \<Rightarrow> Some (uni # str, r))))
                | _ \<Rightarrow> None)
             else
               (case backslash e of
                  None \<Rightarrow> None
                | Some ch \<Rightarrow>
                    (case scanstring cs1 of
                       None \<Rightarrow> None
                     | Some (str, r) \<Rightarrow> Some (of_char ch # str, r))))
      else if (of_char c :: nat) < 32 then None
      else (case scanstring cs of
              None \<Rightarrow> None
            | Some (str, r) \<Rightarrow> Some (of_char c # str, r)))"
  by pat_completeness auto
termination
  by (relation "measure length")
     (auto split: if_splits dest!: following_escape_shorter)

lemma scanstring_shorter: "scanstring s = Some (str, r) \<Longrightarrow> length r < length s"
proof (induction s arbitrary: str r rule: length_induct)
  case (1 s)
  have IH: "\<And>t str' r'. length t < length s \<Longrightarrow> scanstring t = Some (str', r') \<Longrightarrow> length r' < length t"
    using "1.IH" by blast
  show ?case
  proof (cases s)
    case Nil
    with "1.prems" show ?thesis by simp
  next
    case (Cons c cs)
    with "1.prems" show ?thesis
      by (auto split: if_splits list.splits option.splits following.splits
          dest!: IH[rotated] following_escape_shorter)
  qed
qed

definition is_digit :: "char \<Rightarrow> bool" where
  "is_digit c = (48 \<le> (of_char c :: nat) \<and> (of_char c :: nat) \<le> 57)"

definition match_integer :: "string \<Rightarrow> (string \<times> string) option" where
  "match_integer s =
     (let (sgn, s1) = (case s of
                         [] \<Rightarrow> ([], s)
                       | c # r \<Rightarrow> if c = CHR ''-'' then ([c], r) else ([], s))
      in case s1 of
           [] \<Rightarrow> None
         | c # r \<Rightarrow>
             if c = CHR ''0'' then Some (sgn @ [c], r)
             else if is_digit c then Some (sgn @ takeWhile is_digit s1, dropWhile is_digit s1)
             else None)"

definition match_frac :: "string \<Rightarrow> string \<times> string" where
  "match_frac s =
     (case s of
        [] \<Rightarrow> ([], s)
      | c # r \<Rightarrow>
          if c = CHR ''.'' \<and> takeWhile is_digit r \<noteq> []
          then (c # takeWhile is_digit r, dropWhile is_digit r)
          else ([], s))"

definition match_exp :: "string \<Rightarrow> string \<times> string" where
  "match_exp s =
     (case s of
        [] \<Rightarrow> ([], s)
      | c # r \<Rightarrow>
          if c = CHR ''e'' \<or> c = CHR ''E'' then
            (let (sgn, r1) = (case r of
                                [] \<Rightarrow> ([], r)
                              | d # r' \<Rightarrow> if d = CHR ''-'' \<or> d = CHR ''+'' then ([d], r') else ([], r))
             in if takeWhile is_digit r1 \<noteq> []
                then (c # sgn @ takeWhile is_digit r1, dropWhile is_digit r1)
                else ([], s))
          else ([], s))"

definition nat_of_digits :: "string \<Rightarrow> nat" where
  "nat_of_digits ds = foldl (\<lambda>a c. 10 * a + (of_char c - 48)) 0 ds"

definition int_of_literal :: "string \<Rightarrow> int" where
  "int_of_literal s =
     (case s of
        [] \<Rightarrow> 0
      | c # r \<Rightarrow> if c = CHR ''-'' then - int (nat_of_digits r) else int (nat_of_digits s))"

definition match_number :: "string \<Rightarrow> (pyval \<times> string) option" where
  "match_number s =
     (case match_integer s of
        None \<Rightarrow> None
      | Some (integer, r) \<Rightarrow>
          (let (frac, r1) = match_frac r;
               (exp, r2) = match_exp r1
           in if frac \<noteq> [] \<or> exp \<noteq> []
              then Some (PyFloat (integer @ frac @ exp), r2)
              else Some (PyInt (int_of_literal integer), r2)))"

fun dict_setitem :: "(pystr \<times> pyval) list \<Rightarrow> pystr \<times> pyval \<Rightarrow> (pystr \<times> pyval) list" where
  "dict_setitem [] kv = [kv]"
| "dict_setitem (p # ps) kv = (if fst p = fst kv then kv # ps else p # dict_setitem ps kv)"

definition dict_of_pairs :: "(pystr \<times> pyval) list \<Rightarrow> (pystr \<times> pyval) list" where
  "dict_of_pairs pairs = foldl dict_setitem [] pairs"

lemma length_skip_ws: "length (skip_ws s) \<le> length s"
  by (simp add: skip_ws_def length_dropWhile_le)

lemma skip_ws_Cons_shorter: "skip_ws s = c # r \<Longrightarrow> length r < length s"
  using length_skip_ws [of s] by simp

function scan_once :: "string \<Rightarrow> (pyval \<times> string) option"
  and parse_array :: "string \<Rightarrow> (pyval list \<times> string) option"
  and parse_object :: "string \<Rightarrow> ((pystr \<times> pyval) list \<times> string) option"
where
  "scan_once [] = None"
| "scan_once (c # cs) =
     (if c = CHR 0x22 then
        (case scanstring cs of
           None \<Rightarrow> None
         | Some (str, r) \<Rightarrow> Some (PyStr str, r))
      else if c = CHR ''{'' then
        (case skip_ws cs of
           [] \<Rightarrow> None
         | c1 # r1 \<Rightarrow>
             if c1 = CHR ''}'' then Some (PyDict [], r1)
             else if c1 = CHR 0x22 then
               (case parse_object r1 of
                  None \<Rightarrow> None
                | Some (pairs, r) \<Rightarrow> Some (PyDict (dict_of_pairs pairs), r))
             else None)
      else if c = CHR ''['' then
        (case skip_ws cs of
           [] \<Rightarrow> None
         | c1 # r1 \<Rightarrow>
             if c1 = CHR '']'' then Some (PyList [], r1)
             else
               (case parse_array (c1 # r1) of
                  None \<Rightarrow> None
                | Some (vs, r) \<Rightarrow> Some (PyList vs, r)))
      else if take 4 (c # cs) = ''null'' then Some (PyNone, drop 4 (c # cs))
      else if take 4 (c # cs) = ''true'' then Some (PyBool True, drop 4 (c # cs))
      else if take 5 (c # cs) = ''false'' then Some (PyBool False, drop 5 (c # cs))
      else
        (case match_number (c # cs) of
           Some (v, r) \<Rightarrow> Some (v, r)
         | None \<Rightarrow>
             if take 3 (c # cs) = ''NaN'' then Some (PyFloat ''NaN'', drop 3 (c # cs))
             else if take 8 (c # cs) = ''Infinity'' then Some (PyFloat ''Infinity'', drop 8 (c # cs))
             else if take 9 (c # cs) = ''-Infinity'' then Some (PyFloat ''-Infinity'', drop 9 (c # cs))
             else None))"
| "parse_array s =
     (case scan_once s of
        None \<Rightarrow> None
      | Some (v, r) \<Rightarrow>
          if length r < length s then
            (case skip_ws r of
               [] \<Rightarrow> None
             | c # r1 \<Rightarrow>
                 if c = CHR '']'' then Some ([v], r1)
                 else if c = CHR '','' then
                   (case parse_array (skip_ws r1) of
                      None \<Rightarrow> None
                    | Some (vs, r2) \<Rightarrow> Some (v # vs, r2))
                 else None)
          else None)"
| "parse_object s =
     (case scanstring s of
        None \<Rightarrow> None
      | Some (key, r) \<Rightarrow>
          (case skip_ws r of
             [] \<Rightarrow> None
           | c # r1 \<Rightarrow>
               if c \<noteq> CHR '':'' then None
               else
                 (case scan_once (skip_ws r1) of
                    None \<Rightarrow> None
                  | Some (v, r2) \<Rightarrow>
                      if length r2 < length (skip_ws r1) then
                        (case skip_ws r2 of
                           [] \<Rightarrow> None
                         | c2 # r3 \<Rightarrow>
                             if c2 = CHR ''}'' then Some ([(key, v)], r3)
                             else if c2 = CHR '','' then
                               (case skip_ws r3 of
                                  [] \<Rightarrow> None
                                | c3 # r4 \<Rightarrow>
                                    if c3 = CHR 0x22 then
                                      (case parse_object r4 of
                                         None \<Rightarrow> None
                                       | Some (ps, r5) \<Rightarrow> Some ((key, v) # ps, r5))
                                    else None)
                             else None)
                      else None)))"
  by pat_completeness auto

termination
proof (relation "measure (\<lambda>x. case x of Inl s \<Rightarrow> 2 * length s
                                    | Inr (Inl s) \<Rightarrow> 2 * length s + 1
                                    | Inr (Inr s) \<Rightarrow> 2 * length s + 1)", goal_cases)
  case 1
  show ?case by simp
next
  case (2 c cs c1 r1)
  then show ?case by (auto dest!: skip_ws_Cons_shorter)
next
  case (3 c cs c1 r1)
  then show ?case using length_skip_ws [of cs] by simp
next
  case (4 s)
  show ?case by simp
next
  case (5 s x v r c r1)
  then show ?case
    using length_skip_ws [of r1] by (auto dest!: skip_ws_Cons_shorter)
next
  case (6 s x key r c r1)
  then show ?case
    using length_skip_ws [of r1] by (auto dest!: skip_ws_Cons_shorter scanstring_shorter)
next
  case (7 s x key r c r1 x2 v r2 c2 r3 c3 r4)
  then show ?case
    using length_skip_ws [of r1] by (auto dest!: skip_ws_Cons_shorter scanstring_shorter)
qed

definition json_loads :: "string \<Rightarrow> pyval option" where
  "json_loads s =
     (case scan_once (skip_ws s) of
        None \<Rightarrow> None
      | Some (v, r) \<Rightarrow> if skip_ws r = [] then Some v else None)"

text \<open>
  The start of a session (lines 15-20): the list is read from the file when there is
  one, and is empty otherwise. What \<^verbatim>\<open>json.load\<close> returns is stored as it is.

  Reading an existing file can be interrupted from outside the text of the program: by
  the file system (\<^verbatim>\<open>open\<close> or the read raises \<^verbatim>\<open>OSError\<close>), by bytes that are not text in
  the encoding of the locale (\<^verbatim>\<open>UnicodeDecodeError\<close>), and by the limits of the
  interpreter (\<^verbatim>\<open>ValueError\<close> for an integer with more digits than it converts, 4300
  unless configured otherwise, and \<^verbatim>\<open>RecursionError\<close> for a nesting deeper than its stack
  allows). Which of these happens is an input of the model, as for the write;
  \<open>Read_ok\<close> is the run in which none does.
\<close>

datatype read_outcome =
  Read_ok | Read_os_error | Read_not_text | Read_int_limit | Read_stack_limit

definition read_error :: "read_outcome \<Rightarrow> py_error option" where
  "read_error env =
     (case env of
        Read_ok \<Rightarrow> None
      | Read_os_error \<Rightarrow> Some OSError
      | Read_not_text \<Rightarrow> Some UnicodeDecodeError
      | Read_int_limit \<Rightarrow> Some ValueError
      | Read_stack_limit \<Rightarrow> Some RecursionError)"

definition init_session_state :: "read_outcome \<Rightarrow> string option \<Rightarrow> py_error + pyval" where
  "init_session_state env file =
     (case file of
        None \<Rightarrow> Inr (PyList [])
      | Some text \<Rightarrow>
          (case read_error env of
             Some e \<Rightarrow> Inl e
           | None \<Rightarrow>
               (case json_loads text of
                  None \<Rightarrow> Inl JSONDecodeError
                | Some v \<Rightarrow> Inr v)))"

text \<open>The start of a session in the run in which the read is not interrupted.\<close>

definition load_inventory :: "string option \<Rightarrow> py_error + pyval" where
  "load_inventory file = init_session_state Read_ok file"

text \<open>
  The characters with which the text of a JSON value can begin, and the texts that are
  empty, blank, or begin with another character after their leading blanks.
\<close>

definition can_start_value :: "char \<Rightarrow> bool" where
  "can_start_value c = (is_digit c \<or> c \<in> set (CHR 0x22 # ''{[-ntfNI''))"

definition no_value_start :: "string \<Rightarrow> bool" where
  "no_value_start text = (case skip_ws text of [] \<Rightarrow> True | c # _ \<Rightarrow> \<not> can_start_value c)"

section \<open>What a store can hold: floats and well-formed values\<close>

text \<open>
  \<^verbatim>\<open>repr\<close> of a finite float is an optional sign, an integer part without leading
  zeros, and a fraction, an exponent with its sign, or both (\<^verbatim>\<open>9.99\<close>, \<^verbatim>\<open>-0.0\<close>,
  \<^verbatim>\<open>1e-05\<close>, \<^verbatim>\<open>1.5e+16\<close>); the other floats are written \<^verbatim>\<open>NaN\<close>, \<^verbatim>\<open>Infinity\<close> and
  \<^verbatim>\<open>-Infinity\<close>. \<open>is_pyfloat\<close> says that a text stands for a float; it is the
  invariant of the type \<open>pyfloat\<close>.
\<close>

definition exponent_shape :: "string \<Rightarrow> bool" where
  "exponent_shape e =
     (case e of
        c # sg # ds \<Rightarrow>
          c = CHR ''e'' \<and> (sg = CHR ''-'' \<or> sg = CHR ''+'') \<and> ds \<noteq> [] \<and> list_all is_digit ds
      | _ \<Rightarrow> False)"

definition float_tail_shape :: "string \<Rightarrow> bool" where
  "float_tail_shape t =
     (case t of
        [] \<Rightarrow> False
      | c # r \<Rightarrow>
          if c = CHR ''.'' then
            takeWhile is_digit r \<noteq> [] \<and>
            (dropWhile is_digit r = [] \<or> exponent_shape (dropWhile is_digit r))
          else exponent_shape t)"

definition float_repr_shape :: "string \<Rightarrow> bool" where
  "float_repr_shape r =
     (let body = (case r of [] \<Rightarrow> r | c # r' \<Rightarrow> if c = CHR ''-'' then r' else r);
          ip = takeWhile is_digit body
      in ip \<noteq> [] \<and> (if hd ip = CHR ''0'' then ip = ''0'' else True) \<and>
         float_tail_shape (dropWhile is_digit body))"

definition is_pyfloat :: "pyfloat \<Rightarrow> bool" where
  "is_pyfloat r = (float_repr_shape r \<or> r = ''NaN'' \<or> r = ''Infinity'' \<or> r = ''-Infinity'')"

text \<open>
  A string is well formed when its code points are Unicode scalar values (code points
  below \<^verbatim>\<open>0x110000\<close> that are not surrogates), as every string that was decoded from
  UTF-8 is. A value is well formed when its strings are, its floats are floats and no
  dictionary has a key twice (a Python dictionary never has).
\<close>

definition scalar_value :: "nat \<Rightarrow> bool" where
  "scalar_value n = (n < 0xD800 \<or> (0xE000 \<le> n \<and> n < 0x110000))"

definition wf_str :: "pystr \<Rightarrow> bool" where
  "wf_str s = list_all scalar_value s"

fun wf_py :: "pyval \<Rightarrow> bool" where
  "wf_py PyNone = True"
| "wf_py (PyBool b) = True"
| "wf_py (PyInt i) = True"
| "wf_py (PyFloat r) = is_pyfloat r"
| "wf_py (PyStr s) = wf_str s"
| "wf_py (PyList vs) = list_all wf_py vs"
| "wf_py (PyDict kvs) =
     (distinct (map fst kvs) \<and> list_all (\<lambda>kv. wf_str (fst kv) \<and> wf_py (snd kv)) kvs)"

text \<open>Notions used in the proofs about the decoder.\<close>

definition value_end :: "string \<Rightarrow> bool" where
  "value_end rest = (case rest of [] \<Rightarrow> True | c # _ \<Rightarrow> c = CHR '','' \<or> c = CHR '']'' \<or> c = CHR ''}'')"

definition no_digit_ahead :: "string \<Rightarrow> bool" where
  "no_digit_ahead rest = (case rest of [] \<Rightarrow> True | c # _ \<Rightarrow> \<not> is_digit c)"

definition number_start :: "char \<Rightarrow> bool" where
  "number_start c = (is_digit c \<or> c = CHR ''-'')"

definition reads_back :: "pyval \<Rightarrow> bool" where
  "reads_back v = (\<forall>rest. value_end rest \<longrightarrow> scan_once (json_dumps v @ rest) = Some (v, rest))"

definition member_text :: "pystr \<times> pyval \<Rightarrow> string" where
  "member_text kv = encode_basestring_ascii (fst kv) @ '': '' @ json_dumps (snd kv)"

section \<open>The name filter of the "View Inventory" tab\<close>

text \<open>
  Lines 76-77: with a non-empty search term the rows are kept for which
  \<^verbatim>\<open>str.contains(search_term, case=False)\<close> holds. \<^verbatim>\<open>str.contains\<close> has \<^verbatim>\<open>regex=True\<close> by
  default: the term is compiled as a regular expression with \<^verbatim>\<open>re.IGNORECASE\<close> and
  searched in each name. The regular expressions modelled are the sequences of
  ordinary characters and \<^verbatim>\<open>.\<close> (any character but a newline); a pattern that starts
  with \<^verbatim>\<open>*\<close>, \<^verbatim>\<open>+\<close>, \<^verbatim>\<open>?\<close> or \<^verbatim>\<open>)\<close> does not compile (\<^verbatim>\<open>re.error\<close>); every other pattern with
  a special character is outside this fragment, and the result is then \<open>Not_modelled\<close>.
\<close>

datatype re_atom = Lit char | Any_char

datatype re_pattern = Pattern "re_atom list" | Compile_error | Outside_fragment

definition re_special :: "char \<Rightarrow> bool" where
  "re_special c = (c \<in> set (CHR 0x5C # ''.^$*+?{}[]|()''))"

fun re_atoms :: "string \<Rightarrow> re_atom list option" where
  "re_atoms [] = Some []"
| "re_atoms (c # cs) =
     (if c = CHR ''.'' then map_option ((#) Any_char) (re_atoms cs)
      else if re_special c then None
      else map_option ((#) (Lit c)) (re_atoms cs))"

definition re_compile :: "string \<Rightarrow> re_pattern" where
  "re_compile pat =
     (case pat of
        [] \<Rightarrow> Pattern []
      | c # cs \<Rightarrow>
          if c = CHR ''*'' \<or> c = CHR ''+'' \<or> c = CHR ''?'' \<or> c = CHR '')'' then Compile_error
          else (case re_atoms pat of
                  None \<Rightarrow> Outside_fragment
                | Some atoms \<Rightarrow> Pattern atoms))"

definition py_lower :: "char \<Rightarrow> char" where
  "py_lower c =
     (let n = (of_char c :: nat) in
      if (65 \<le> n \<and> n \<le> 90) \<or> (192 \<le> n \<and> n \<le> 222 \<and> n \<noteq> 215) then char_of (n + 32) else c)"

fun atom_matches :: "re_atom \<Rightarrow> char \<Rightarrow> bool" where
  "atom_matches (Lit l) c = (py_lower l = py_lower c)"
| "atom_matches Any_char c = (c \<noteq> CHR 0x0A)"

fun match_here :: "re_atom list \<Rightarrow> string \<Rightarrow> bool" where
  "match_here [] s = True"
| "match_here (a # as) [] = False"
| "match_here (a # as) (c # cs) = (atom_matches a c \<and> match_here as cs)"

fun re_search :: "re_atom list \<Rightarrow> string \<Rightarrow> bool" where
  "re_search atoms [] = match_here atoms []"
| "re_search atoms (c # cs) = (match_here atoms (c # cs) \<or> re_search atoms cs)"

datatype name_filter_result = Rows "item list" | Raises py_error | Not_modelled

definition filter_by_name :: "string \<Rightarrow> item list \<Rightarrow> name_filter_result" where
  "filter_by_name search_term df =
     (if search_term = [] then Rows df
      else case re_compile search_term of
             Pattern atoms \<Rightarrow> Rows [row \<leftarrow> df. re_search atoms (name row)]
           | Compile_error \<Rightarrow> Raises Re_error
           | Outside_fragment \<Rightarrow> Not_modelled)"

text \<open>
  The specification's reading of the filter, for comparison: the name contains the term
  as a substring, letters compared without case.
\<close>

fun is_substring :: "string \<Rightarrow> string \<Rightarrow> bool" where
  "is_substring t [] = (t = [])"
| "is_substring t (c # cs) = (prefix t (c # cs) \<or> is_substring t cs)"

definition contains_ignoring_case :: "string \<Rightarrow> string \<Rightarrow> bool" where
  "contains_ignoring_case t nm = is_substring (map py_lower t) (map py_lower nm)"

section \<open>Example data\<close>

text \<open>The two records of the specification's scenarios, and a third one.\<close>

definition fern :: item where
  "fern = \<lparr>item_id = 1, name = ''Fern'', category = ''Plants'', quantity = 2,
           price = ''9.99'', care_instructions = ''Water weekly'',
           date_added = ''2024-05-01 09:30:00''\<rparr>"

definition goldfish :: item where
  "goldfish = \<lparr>item_id = 2, name = ''Goldfish'', category = ''Aquatic Life'', quantity = 3,
               price = ''4.5'', care_instructions = ''Feed twice a day'',
               date_added = ''2024-05-02 14:00:00''\<rparr>"

definition empty_app :: app where
  "empty_app = \<lparr>inventory = [], disk = None\<rparr>"

text \<open>
  A run of the handlers from the empty store: two additions, then the deletion of the
  first record and a third addition.
\<close>

definition after_two_adds :: app where
  "after_two_adds =
     snd (add_item Write_ok ''2024-05-02 14:00:00'' ''Goldfish'' ''Aquatic Life'' 3 ''4.5''
            ''Feed twice a day''
       (snd (add_item Write_ok ''2024-05-01 09:30:00'' ''Fern'' ''Plants'' 2 ''9.99''
               ''Water weekly'' empty_app)))"

definition after_delete_and_add :: app where
  "after_delete_and_add =
     snd (add_item Write_ok ''2024-05-03 08:00:00'' ''Snail'' ''Aquatic Life'' 1 ''2.0'' []
       (snd (delete_selected Write_ok 1 after_two_adds)))"

definition two_items :: app where
  "two_items = \<lparr>inventory = [fern, goldfish], disk = None\<rparr>"

section \<open>Properties of the handlers\<close>

lemma inventory_save_inventory: "inventory (snd (save_inventory io s)) = inventory s"
  by (cases io) (simp_all add: save_inventory_def)

lemma fst_save_inventory_fails: "io \<noteq> Write_ok \<Longrightarrow> fst (save_inventory io s) = Raised OSError"
  by (cases io) (simp_all add: save_inventory_def)

lemma fst_save_inventory_ok: "fst (save_inventory Write_ok s) = Done"
  by (simp add: save_inventory_def)

lemma inventory_add_item:
  "inventory (snd (add_item io now item_name cat qty pr care s)) =
     inventory s @ [\<lparr>item_id = int (length (inventory s)) + 1, name = item_name, category = cat,
                     quantity = qty, price = pr, care_instructions = care, date_added = now\<rparr>]"
  by (simp add: add_item_def inventory_save_inventory)

lemma inventory_delete_selected:
  "inventory (snd (delete_selected io d s)) = [it \<leftarrow> inventory s. item_id it \<noteq> d]"
  by (simp add: delete_selected_def inventory_save_inventory)

lemma count_list_filter: "P x \<Longrightarrow> count_list (filter P xs) x = count_list xs x"
  by (induction xs) auto

lemma set_prices_no_match:
  "find (\<lambda>it. item_id it = d) xs = None \<Longrightarrow> set_prices d p xs = xs"
  by (induction xs) (auto split: if_splits)

lemma inventory_update_price:
  "inventory (snd (update_price io d p s)) = set_prices d p (inventory s)"
  by (auto simp: update_price_def inventory_save_inventory set_prices_no_match split: option.splits)

lemma length_set_prices: "length (set_prices d p xs) = length xs"
  by (induction xs) auto

lemma nth_set_prices:
  "i < length xs \<Longrightarrow>
   set_prices d p xs ! i = (if item_id (xs ! i) = d then (xs ! i)\<lparr>price := p\<rparr> else xs ! i)"
  by (induction xs arbitrary: i) (auto simp: nth_Cons split: nat.splits)

text \<open>
  Claim C1. For every store and every id, after "Delete Selected Item" no record of the
  store has the given id (all duplicates are gone), the store is a subsequence of the
  old one (the records kept are unchanged and in their original order), and every
  record with another id occurs as often as before. This holds whatever the write to
  the file does.
\<close>

theorem delete_removes_exactly_the_matching_records:
  "(\<forall>it \<in> set (inventory (snd (delete_selected io d s))). item_id it \<noteq> d) \<and>
   subseq (inventory (snd (delete_selected io d s))) (inventory s) \<and>
   (\<forall>it. item_id it \<noteq> d \<longrightarrow>
      count_list (inventory (snd (delete_selected io d s))) it = count_list (inventory s) it)"
  by (simp add: inventory_delete_selected count_list_filter)

theorem delete_removes_exactly_the_matching_records_witness:
  "inventory (snd (delete_selected Write_ok 1 two_items)) = [goldfish] \<and>
   subseq [goldfish] (inventory two_items) \<and>
   item_id goldfish \<noteq> 1 \<and>
   count_list (inventory (snd (delete_selected Write_ok 1 two_items))) goldfish = 1"
  using delete_removes_exactly_the_matching_records [of Write_ok 1 two_items]
  by (simp add: inventory_delete_selected two_items_def fern_def goldfish_def)

text \<open>
  Claim C10. For every store and every id that no record of the store has, the delete
  operation leaves the sequence of records as it was.
\<close>

theorem delete_of_absent_id_changes_nothing:
  "d \<notin> item_id ` set (inventory s) \<Longrightarrow> inventory (snd (delete_selected io d s)) = inventory s"
  by (auto simp: inventory_delete_selected filter_id_conv)

theorem delete_of_absent_id_changes_nothing_witness:
  "7 \<notin> item_id ` set (inventory two_items) \<and>
   inventory (snd (delete_selected Write_ok 7 two_items)) = [fern, goldfish]"
proof -
  have h: "7 \<notin> item_id ` set (inventory two_items)"
    by (simp add: two_items_def fern_def goldfish_def)
  show ?thesis
    using h delete_of_absent_id_changes_nothing [OF h, of Write_ok]
    by (simp add: two_items_def)
qed

text \<open>
  Claim C6. For every store, id and new price, "Update Price" keeps the length of the
  store and changes it position by position: a record with the given id becomes the
  same record with \<open>price\<close> set to the new price (every other field as before), and a
  record with another id is unchanged.
\<close>

theorem update_price_changes_only_the_price_of_matching_records:
  "length (inventory (snd (update_price io d p s))) = length (inventory s) \<and>
   (\<forall>i < length (inventory s).
      inventory (snd (update_price io d p s)) ! i =
        (if item_id (inventory s ! i) = d then (inventory s ! i)\<lparr>price := p\<rparr> else inventory s ! i))"
  by (simp add: inventory_update_price length_set_prices nth_set_prices)

theorem update_price_changes_only_the_price_of_matching_records_witness:
  "(0::nat) < length (inventory two_items) \<and>
   inventory (snd (update_price Write_ok 1 ''12.5'' two_items)) ! 0 = fern\<lparr>price := ''12.5''\<rparr> \<and>
   inventory (snd (update_price Write_ok 1 ''12.5'' two_items)) ! 1 = goldfish"
  using update_price_changes_only_the_price_of_matching_records [of Write_ok 1 "''12.5''" two_items]
  by (simp add: two_items_def fern_def goldfish_def)

text \<open>
  Claim C7. Filtering by no category returns all records unchanged. Filtering by a
  non-empty selection returns exactly the records whose category is selected: every
  record returned has a selected category, the result is a subsequence of the input,
  and every record with a selected category occurs in it as often as in the input.
\<close>

theorem filter_by_categories_empty_is_identity_else_membership:
  "filter_by_categories [] df = df \<and>
   (cats \<noteq> [] \<longrightarrow>
      (\<forall>row \<in> set (filter_by_categories cats df). category row \<in> set cats) \<and>
      subseq (filter_by_categories cats df) df \<and>
      (\<forall>row. category row \<in> set cats \<longrightarrow>
         count_list (filter_by_categories cats df) row = count_list df row))"
  by (simp add: filter_by_categories_def count_list_filter)

theorem filter_by_categories_empty_is_identity_else_membership_witness:
  "[''Plants''] \<noteq> [] \<and>
   filter_by_categories [''Plants''] [fern, goldfish] = [fern] \<and>
   category fern \<in> set [''Plants''] \<and>
   filter_by_categories [] [fern, goldfish] = [fern, goldfish]"
  using filter_by_categories_empty_is_identity_else_membership [of "[fern, goldfish]" "[''Plants'']"]
  by (simp add: filter_by_categories_def fern_def goldfish_def)

text \<open>
  Claim C4. For every store and all field values, "Add Item" appends at the end of the
  sequence a record with \<open>id\<close> equal to the size of the store plus 1, the fields as
  supplied and \<open>date_added\<close> the time of creation; no value is rejected, and when the
  file is written the handler finishes without an error.
\<close>

theorem add_item_appends_record_with_next_id:
  "inventory (snd (add_item io now item_name cat qty pr care s)) =
     inventory s @ [\<lparr>item_id = int (length (inventory s)) + 1, name = item_name, category = cat,
                     quantity = qty, price = pr, care_instructions = care, date_added = now\<rparr>] \<and>
   fst (add_item Write_ok now item_name cat qty pr care s) = Done"
  by (simp add: inventory_add_item) (simp add: add_item_def fst_save_inventory_ok)

text \<open>
  Claim C5. Ids are not unique over the life of the store. Starting from the empty
  store, two additions give the records with the ids 1 and 2; deleting the record with
  id 1 and adding one more record gives a store in which two records have the id 2.
\<close>

theorem ids_repeat_after_delete_then_add:
  "inventory after_two_adds = [fern, goldfish] \<and>
   map item_id (inventory after_two_adds) = [1, 2] \<and>
   map item_id (inventory after_delete_and_add) = [2, 2] \<and>
   \<not> distinct (map item_id (inventory after_delete_and_add))"
  by (simp add: after_two_adds_def after_delete_and_add_def empty_app_def inventory_add_item
      inventory_delete_selected fern_def goldfish_def)

text \<open>
  Claim C9. When the write to the file fails during "Add Item", "Delete Selected Item"
  or "Update Price", the handler raises the error and the store in memory holds the
  change: the new record is appended, the records with the id are removed, the
  prices are set. (Delete needs a non-empty store and update an existing id for their
  buttons to exist.)
\<close>

theorem mutation_is_kept_when_the_write_fails:
  assumes "io \<noteq> Write_ok"
  shows "fst (add_item io now item_name cat qty pr care s) = Raised OSError \<and>
         inventory (snd (add_item io now item_name cat qty pr care s)) =
           inventory s @ [\<lparr>item_id = int (length (inventory s)) + 1, name = item_name, category = cat,
                           quantity = qty, price = pr, care_instructions = care, date_added = now\<rparr>] \<and>
         (inventory s \<noteq> [] \<longrightarrow>
            fst (delete_selected io d s) = Raised OSError \<and>
            inventory (snd (delete_selected io d s)) = [it \<leftarrow> inventory s. item_id it \<noteq> d]) \<and>
         (d \<in> item_id ` set (inventory s) \<longrightarrow>
            fst (update_price io d pr s) = Raised OSError \<and>
            inventory (snd (update_price io d pr s)) = set_prices d pr (inventory s))"
proof -
  have "d \<in> item_id ` set (inventory s) \<Longrightarrow> find (\<lambda>it. item_id it = d) (inventory s) \<noteq> None"
    by (auto simp: find_None_iff)
  then show ?thesis
    using assms
    by (auto simp: add_item_def delete_selected_def update_price_def inventory_save_inventory
        fst_save_inventory_fails split: option.splits)
qed

theorem mutation_is_kept_when_the_write_fails_witness:
  "Open_fails \<noteq> Write_ok \<and> inventory two_items \<noteq> [] \<and> 1 \<in> item_id ` set (inventory two_items) \<and>
   fst (delete_selected Open_fails 1 two_items) = Raised OSError \<and>
   inventory (snd (delete_selected Open_fails 1 two_items)) = [goldfish] \<and>
   disk (snd (delete_selected Open_fails 1 two_items)) = None \<and>
   fst (update_price Open_fails 1 ''12.5'' two_items) = Raised OSError \<and>
   inventory (snd (update_price Open_fails 1 ''12.5'' two_items)) = [fern\<lparr>price := ''12.5''\<rparr>, goldfish]"
  using mutation_is_kept_when_the_write_fails [of Open_fails "[]" "[]" "[]" 0 "''12.5''" "[]" two_items 1]
  by (simp add: delete_selected_def update_price_def save_inventory_def two_items_def fern_def goldfish_def)

section \<open>Reading back what \<^verbatim>\<open>json.dump\<close> wrote\<close>

subsection \<open>Strings\<close>

lemma hex_val_hex_char: "d < 16 \<Longrightarrow> hex_val (hex_char d) = Some d"
  unfolding hex_val_def hex_char_def Let_def
  by (simp add: of_char_of take_bit_eq_mod)

lemma hex4_digits:
  assumes "(n::nat) < 65536"
  shows "((n div 4096 mod 16 * 16 + n div 256 mod 16) * 16 + n div 16 mod 16) * 16 + n mod 16 = n"
proof -
  define a where "a = n div 16"
  define b where "b = a div 16"
  define c where "c = b div 16"
  have b_eq: "n div 256 = b" using div_mult2_eq [of n 16 16] by (simp add: a_def b_def)
  have c_eq: "n div 4096 = c" using div_mult2_eq [of n 256 16] b_eq by (simp add: c_def)
  have "n div 4096 < 16" using assms by simp
  then have "c < 16" using c_eq by simp
  then have c_mod: "c mod 16 = c" by simp
  have n: "n = a * 16 + n mod 16" by (simp add: a_def)
  have a: "a = b * 16 + a mod 16" by (simp add: b_def)
  have b: "b = c * 16 + b mod 16" by (simp add: c_def)
  have "((c * 16 + b mod 16) * 16 + a mod 16) * 16 + n mod 16 = n"
    using n a b by simp
  then show ?thesis by (simp add: b_eq c_eq c_mod a_def [symmetric])
qed

lemma decode_hex4:
  assumes "n < 65536"
  shows "decode_uXXXX (hex_char (n div 4096 mod 16)) (hex_char (n div 256 mod 16))
           (hex_char (n div 16 mod 16)) (hex_char (n mod 16)) = Some n"
proof -
  have d: "hex_val (hex_char (n div 4096 mod 16)) = Some (n div 4096 mod 16)"
      "hex_val (hex_char (n div 256 mod 16)) = Some (n div 256 mod 16)"
      "hex_val (hex_char (n div 16 mod 16)) = Some (n div 16 mod 16)"
      "hex_val (hex_char (n mod 16)) = Some (n mod 16)"
    by (simp_all add: hex_val_hex_char)
  show ?thesis
    unfolding decode_uXXXX_def d
    using hex4_digits [OF assms] by (simp only: prod.case option.case)
qed

lemma of_char_lt_256: "(of_char (c::char) :: nat) < 256"
  by (cases c) simp

lemma of_char_char_of_nat: "n < 256 \<Longrightarrow> (of_char (char_of n) :: nat) = n"
  by (simp add: of_char_of take_bit_eq_mod)

lemma scanstring_u_escape:
  assumes "n < 65536" and "\<not> is_high_surrogate n"
  shows "scanstring (CHR 0x5C # CHR ''u'' # hex4 n @ t) =
           (case scanstring t of None \<Rightarrow> None | Some (str, r) \<Rightarrow> Some (n # str, r))"
  using assms decode_hex4 [OF assms(1)] by (simp add: hex4_def)

lemma following_escape_low:
  assumes "n < 65536" and "is_low_surrogate n"
  shows "following_escape (CHR 0x5C # CHR ''u'' # hex4 n @ t) = Low_surrogate n t"
  using assms decode_hex4 [OF assms(1)] by (simp add: following_escape_def hex4_def)

lemma scanstring_pair:
  assumes "hi < 65536" and "is_high_surrogate hi" and "lo < 65536" and "is_low_surrogate lo"
  shows "scanstring (CHR 0x5C # CHR ''u'' # hex4 hi @ CHR 0x5C # CHR ''u'' # hex4 lo @ t) =
           (case scanstring t of
              None \<Rightarrow> None
            | Some (str, r) \<Rightarrow> Some ((0x10000 + (hi - 0xD800) * 1024 + (lo - 0xDC00)) # str, r))"
proof -
  have f: "following_escape (CHR 0x5C # CHR ''u'' # hex4 lo @ t) = Low_surrogate lo t"
    using following_escape_low [OF assms(3,4)] .
  have "scanstring (CHR 0x5C # CHR ''u'' # hex4 hi @ (CHR 0x5C # CHR ''u'' # hex4 lo @ t)) =
           (case scanstring t of
              None \<Rightarrow> None
            | Some (str, r) \<Rightarrow> Some ((0x10000 + (hi - 0xD800) * 1024 + (lo - 0xDC00)) # str, r))"
    using assms(2) decode_hex4 [OF assms(1)] f by (simp add: hex4_def)
  then show ?thesis by simp
qed

lemma scanstring_printable:
  assumes "32 \<le> n" and "n \<le> 126" and "n \<noteq> 0x22" and "n \<noteq> 0x5C"
  shows "scanstring (char_of n # t) =
           (case scanstring t of None \<Rightarrow> None | Some (str, r) \<Rightarrow> Some (n # str, r))"
proof -
  define c :: char where "c = char_of n"
  have o: "(of_char c :: nat) = n" using assms(2) by (simp add: c_def of_char_char_of_nat)
  have q: "c \<noteq> CHR 0x22"
  proof
    assume "c = CHR 0x22"
    then have "(of_char c :: nat) = of_char (CHR 0x22)" by simp
    with o assms(3) show False by simp
  qed
  have s: "c \<noteq> CHR 0x5C"
  proof
    assume "c = CHR 0x5C"
    then have "(of_char c :: nat) = of_char (CHR 0x5C)" by simp
    with o assms(4) show False by simp
  qed
  have "scanstring (c # t) =
           (case scanstring t of None \<Rightarrow> None | Some (str, r) \<Rightarrow> Some (n # str, r))"
    using q s o assms(1) by (cases "scanstring t") auto
  then show ?thesis by (simp only: c_def)
qed

lemma scanstring_escape_char:
  assumes "scalar_value n"
  shows "scanstring (escape_char n @ t) =
     (case scanstring t of None \<Rightarrow> None | Some (str, r) \<Rightarrow> Some (n # str, r))"
proof -
  consider (short) "n = 0x5C \<or> n = 0x22 \<or> n = 0x08 \<or> n = 0x0C \<or> n = 0x0A \<or> n = 0x0D \<or> n = 0x09"
    | (printable) "n \<noteq> 0x5C" "n \<noteq> 0x22" "32 \<le> n" "n \<le> 126"
    | (bmp) "n \<noteq> 0x08" "n \<noteq> 0x0C" "n \<noteq> 0x0A" "n \<noteq> 0x0D" "n \<noteq> 0x09"
        "n < 32 \<or> 126 < n" "n < 0x10000"
    | (astral) "0x10000 \<le> n"
    by linarith
  then show ?thesis
  proof cases
    case short
    then show ?thesis
      by (auto simp: escape_char_def backslash_def split: option.splits)
  next
    case printable
    then show ?thesis
      using scanstring_printable [of n t] by (simp add: escape_char_def)
  next
    case bmp
    have "\<not> is_high_surrogate n"
      using assms by (auto simp: scalar_value_def is_high_surrogate_def)
    then have "scanstring (CHR 0x5C # CHR ''u'' # hex4 n @ t) =
           (case scanstring t of None \<Rightarrow> None | Some (str, r) \<Rightarrow> Some (n # str, r))"
      using scanstring_u_escape [of n t] bmp(7) by simp
    moreover have "escape_char n = CHR 0x5C # CHR ''u'' # hex4 n"
      using bmp by (auto simp: escape_char_def)
    ultimately show ?thesis by simp
  next
    case astral
    define v where "v = n - 0x10000"
    define hi where "hi = 0xD800 + v div 1024"
    define lo where "lo = 0xDC00 + v mod 1024"
    have v: "v < 0x100000" "n = 0x10000 + v"
      using assms astral by (auto simp: scalar_value_def v_def)
    have hi: "hi < 65536" "is_high_surrogate hi"
      using v(1) by (auto simp: hi_def is_high_surrogate_def)
    have lo: "lo < 65536" "is_low_surrogate lo"
      by (auto simp: lo_def is_low_surrogate_def)
    have joined: "0x10000 + (hi - 0xD800) * 1024 + (lo - 0xDC00) = n"
      using v(2) by (simp add: hi_def lo_def)
    have esc: "escape_char n = CHR 0x5C # CHR ''u'' # hex4 hi @ CHR 0x5C # CHR ''u'' # hex4 lo"
      using astral by (simp add: escape_char_def hi_def lo_def v_def)
    show ?thesis
      using scanstring_pair [OF hi lo, of t] joined by (cases "scanstring t") (auto simp: esc)
  qed
qed

lemma wf_str_Cons: "wf_str (n # s) \<longleftrightarrow> scalar_value n \<and> wf_str s"
  by (simp add: wf_str_def)

lemma scanstring_body:
  "wf_str s \<Longrightarrow> scanstring (concat (map escape_char s) @ CHR 0x22 # rest) = Some (s, rest)"
  by (induction s) (simp_all add: scanstring_escape_char wf_str_Cons)

lemma quote_not_ws: "\<not> is_ws (CHR 0x22)"
  by (simp add: is_ws_def)

lemma scan_once_string:
  "wf_str s \<Longrightarrow> scan_once (encode_basestring_ascii s @ rest) = Some (PyStr s, rest)"
  by (simp add: encode_basestring_ascii_def scanstring_body)

subsection \<open>Integers\<close>

declare nat_repr.simps [simp del]

lemma is_digit_digit_char: "d < 10 \<Longrightarrow> is_digit (digit_char d)"
  by (simp add: is_digit_def digit_char_def of_char_of take_bit_eq_mod)

lemma of_char_digit_char: "d < 10 \<Longrightarrow> (of_char (digit_char d) :: nat) - 48 = d"
  by (simp add: digit_char_def of_char_of take_bit_eq_mod)


lemma of_char_digit_char': "d < 10 \<Longrightarrow> (of_char (digit_char d) :: nat) = 48 + d"
  by (simp add: digit_char_def of_char_of take_bit_eq_mod)

lemma digit_char_0: "digit_char 0 = CHR ''0''"
proof -
  have "char_of (of_char (CHR ''0'') :: nat) = CHR ''0''" by (rule char_of_char)
  then show ?thesis by (simp add: digit_char_def)
qed

lemma digit_char_eq_0: "d < 10 \<Longrightarrow> digit_char d = CHR ''0'' \<longleftrightarrow> d = 0"
proof
  assume d: "d < 10" and e: "digit_char d = CHR ''0''"
  from e have "(of_char (digit_char d) :: nat) = of_char (CHR ''0'')" by simp
  with d show "d = 0" by (simp add: of_char_digit_char')
next
  assume "d = 0"
  then show "digit_char d = CHR ''0''" by (simp add: digit_char_0)
qed

lemma nat_repr_digits: "\<forall>c \<in> set (nat_repr n). is_digit c"
proof (induction n rule: nat_repr.induct)
  case (1 n)
  show ?case
  proof (cases "n < 10")
    case True
    then show ?thesis by (subst nat_repr.simps) (simp add: is_digit_digit_char)
  next
    case False
    with 1 show ?thesis by (subst nat_repr.simps) (simp add: is_digit_digit_char)
  qed
qed

lemma nat_repr_nonempty: "nat_repr n \<noteq> []"
  by (subst nat_repr.simps) simp

lemma nat_repr_0: "nat_repr 0 = ''0''"
  by (subst nat_repr.simps) (simp add: digit_char_0)

lemma hd_nat_repr: "0 < n \<Longrightarrow> hd (nat_repr n) \<noteq> CHR ''0''"
proof (induction n rule: nat_repr.induct)
  case (1 n)
  show ?case
  proof (cases "n < 10")
    case True
    with "1.prems" show ?thesis
      by (subst nat_repr.simps) (simp add: digit_char_eq_0)
  next
    case False
    then have "0 < n div 10" by simp
    with 1 False show ?thesis
      by (subst nat_repr.simps) (simp add: nat_repr_nonempty)
  qed
qed

lemma nat_of_digits_snoc:
  "nat_of_digits (ds @ [c]) = 10 * nat_of_digits ds + (of_char c - 48)"
  by (simp add: nat_of_digits_def)

lemma nat_of_digits_nat_repr: "nat_of_digits (nat_repr n) = n"
proof (induction n rule: nat_repr.induct)
  case (1 n)
  show ?case
  proof (cases "n < 10")
    case True
    then show ?thesis
      by (subst nat_repr.simps) (simp add: nat_of_digits_def of_char_digit_char)
  next
    case False
    with 1 show ?thesis
      by (subst nat_repr.simps) (simp add: nat_of_digits_snoc of_char_digit_char)
  qed
qed


lemma takeWhile_digits:
  "\<forall>c \<in> set ds. is_digit c \<Longrightarrow> no_digit_ahead rest \<Longrightarrow> takeWhile is_digit (ds @ rest) = ds"
  by (induction ds) (auto simp: no_digit_ahead_def split: list.splits)

lemma dropWhile_digits:
  "\<forall>c \<in> set ds. is_digit c \<Longrightarrow> no_digit_ahead rest \<Longrightarrow> dropWhile is_digit (ds @ rest) = rest"
  by (induction ds) (auto simp: no_digit_ahead_def split: list.splits)

lemma value_end_no_digit: "value_end rest \<Longrightarrow> no_digit_ahead rest"
  by (auto simp: value_end_def no_digit_ahead_def is_digit_def split: list.splits)

lemma match_integer_nat_repr:
  assumes "no_digit_ahead rest"
  shows "match_integer (nat_repr n @ rest) = Some (nat_repr n, rest)"
proof (cases "n = 0")
  case True
  then show ?thesis by (simp add: nat_repr_0 match_integer_def)
next
  case False
  obtain c cs where cs: "nat_repr n = c # cs"
    using nat_repr_nonempty [of n] by (cases "nat_repr n") auto
  have dig: "\<forall>c \<in> set (nat_repr n). is_digit c" by (rule nat_repr_digits)
  have c0: "c \<noteq> CHR ''0''" using hd_nat_repr [of n] False cs by simp
  have cd: "is_digit c" using dig cs by simp
  then have cm: "c \<noteq> CHR ''-''" by (auto simp: is_digit_def)
  have "takeWhile is_digit (nat_repr n @ rest) = nat_repr n"
       "dropWhile is_digit (nat_repr n @ rest) = rest"
    using takeWhile_digits [OF dig assms] dropWhile_digits [OF dig assms] by auto
  then show ?thesis
    using cs c0 cd cm by (simp add: match_integer_def)
qed

lemma match_integer_int_repr:
  assumes "no_digit_ahead rest"
  shows "match_integer (int_repr i @ rest) = Some (int_repr i, rest)"
proof (cases "i < 0")
  case False
  then show ?thesis by (simp add: int_repr_def match_integer_nat_repr [OF assms])
next
  case True
  let ?n = "nat (- i)"
  have pos: "0 < ?n" using True by simp
  obtain c cs where cs: "nat_repr ?n = c # cs"
    using nat_repr_nonempty [of ?n] by (cases "nat_repr ?n") auto
  have dig: "\<forall>c \<in> set (nat_repr ?n). is_digit c" by (rule nat_repr_digits)
  have c0: "c \<noteq> CHR ''0''" using hd_nat_repr [OF pos] cs by simp
  have cd: "is_digit c" using dig cs by simp
  have "takeWhile is_digit (nat_repr ?n @ rest) = nat_repr ?n"
       "dropWhile is_digit (nat_repr ?n @ rest) = rest"
    using takeWhile_digits [OF dig assms] dropWhile_digits [OF dig assms] by auto
  then show ?thesis
    using True cs c0 cd by (simp add: int_repr_def match_integer_def)
qed

lemma int_of_literal_int_repr: "int_of_literal (int_repr i) = i"
proof (cases "i < 0")
  case True
  then show ?thesis
    by (simp add: int_repr_def int_of_literal_def nat_of_digits_nat_repr)
next
  case False
  obtain c cs where cs: "nat_repr (nat i) = c # cs"
    using nat_repr_nonempty [of "nat i"] by (cases "nat_repr (nat i)") auto
  have "is_digit c" using nat_repr_digits [of "nat i"] cs by simp
  then have "c \<noteq> CHR ''-''" by (auto simp: is_digit_def)
  then show ?thesis
    using False cs nat_of_digits_nat_repr [of "nat i"]
    by (simp add: int_repr_def int_of_literal_def)
qed

lemma match_frac_value_end: "value_end rest \<Longrightarrow> match_frac rest = ([], rest)"
  by (auto simp: value_end_def match_frac_def split: list.splits)

lemma match_exp_value_end: "value_end rest \<Longrightarrow> match_exp rest = ([], rest)"
  by (auto simp: value_end_def match_exp_def split: list.splits)

lemma match_number_int_repr:
  "value_end rest \<Longrightarrow> match_number (int_repr i @ rest) = Some (PyInt i, rest)"
  by (simp add: match_number_def match_integer_int_repr value_end_no_digit
      match_frac_value_end match_exp_value_end int_of_literal_int_repr)

subsection \<open>Floats\<close>

lemma match_exp_exponent:
  assumes "exponent_shape e" and "no_digit_ahead rest"
  shows "match_exp (e @ rest) = (e, rest)"
proof -
  from assms(1) obtain sg ds where e: "e = CHR ''e'' # sg # ds"
    and sg: "sg = CHR ''-'' \<or> sg = CHR ''+''" and ds: "ds \<noteq> []" "\<forall>c \<in> set ds. is_digit c"
    by (auto simp: exponent_shape_def list_all_iff split: list.splits)
  have "takeWhile is_digit (ds @ rest) = ds" "dropWhile is_digit (ds @ rest) = rest"
    using takeWhile_digits [OF ds(2) assms(2)] dropWhile_digits [OF ds(2) assms(2)] by auto
  then show ?thesis
    using e sg ds(1) by (auto simp: match_exp_def)
qed

lemma exponent_shape_hd: "exponent_shape e \<Longrightarrow> e \<noteq> [] \<and> \<not> is_digit (hd e) \<and> hd e \<noteq> CHR ''.''"
  by (auto simp: exponent_shape_def is_digit_def split: list.splits)

lemma takeWhile_digits_append:
  "no_digit_ahead (dropWhile is_digit r @ rest) \<Longrightarrow>
   takeWhile is_digit (r @ rest) = takeWhile is_digit r \<and>
   dropWhile is_digit (r @ rest) = dropWhile is_digit r @ rest"
  by (induction r) (auto simp: no_digit_ahead_def split: list.splits)

lemma float_tail:
  assumes "float_tail_shape t" and "value_end rest"
  shows "\<exists>frac ex r1. match_frac (t @ rest) = (frac, r1) \<and> match_exp r1 = (ex, rest) \<and>
           frac @ ex = t \<and> (frac \<noteq> [] \<or> ex \<noteq> [])"
proof -
  have nd: "no_digit_ahead rest" using assms(2) by (rule value_end_no_digit)
  from assms(1) obtain c r where t: "t = c # r"
    by (cases t) (auto simp: float_tail_shape_def)
  show ?thesis
  proof (cases "c = CHR ''.''")
    case True
    define fp where "fp = takeWhile is_digit r"
    define r3 where "r3 = dropWhile is_digit r"
    from assms(1) t True have fp: "fp \<noteq> []" and r3: "r3 = [] \<or> exponent_shape r3"
      by (auto simp: float_tail_shape_def fp_def r3_def)
    have nda: "no_digit_ahead (r3 @ rest)"
    proof (cases r3)
      case Nil
      then show ?thesis using nd by simp
    next
      case (Cons a l)
      then have "\<not> is_digit (hd r3)" using hd_dropWhile [of is_digit r] by (simp add: r3_def)
      then show ?thesis using Cons by (simp add: no_digit_ahead_def)
    qed
    have tw: "takeWhile is_digit (r @ rest) = fp" "dropWhile is_digit (r @ rest) = r3 @ rest"
      using takeWhile_digits_append [of r rest] nda by (auto simp: fp_def r3_def)
    have mf: "match_frac (t @ rest) = (c # fp, r3 @ rest)"
      using t True fp tw by (simp add: match_frac_def)
    have me: "match_exp (r3 @ rest) = (r3, rest)"
      using r3 match_exp_exponent [OF _ nd] match_exp_value_end [OF assms(2)] by auto
    have "(c # fp) @ r3 = t" using t by (simp add: fp_def r3_def)
    then show ?thesis using mf me by blast
  next
    case False
    with assms(1) t have es: "exponent_shape t" by (simp add: float_tail_shape_def)
    have mf: "match_frac (t @ rest) = ([], t @ rest)"
      using t False by (simp add: match_frac_def)
    have me: "match_exp (t @ rest) = (t, rest)" using match_exp_exponent [OF es nd] .
    show ?thesis using mf me t by auto
  qed
qed

lemma float_tail_shape_hd: "float_tail_shape t \<Longrightarrow> t \<noteq> [] \<and> \<not> is_digit (hd t)"
  using exponent_shape_hd [of t]
  by (cases t) (auto simp: float_tail_shape_def is_digit_def split: if_splits)

lemma match_integer_digits:
  assumes ip: "ip \<noteq> []" "\<forall>c \<in> set ip. is_digit c" "hd ip = CHR ''0'' \<Longrightarrow> ip = ''0''"
    and nd: "no_digit_ahead t"
  shows "match_integer (ip @ t) = Some (ip, t)"
    and "match_integer (CHR ''-'' # ip @ t) = Some (CHR ''-'' # ip, t)"
proof -
  obtain c cs where cs: "ip = c # cs" using ip(1) by (cases ip) auto
  have cd: "is_digit c" using ip(2) cs by simp
  then have cm: "c \<noteq> CHR ''-''" by (auto simp: is_digit_def)
  have tw: "takeWhile is_digit (ip @ t) = ip" "dropWhile is_digit (ip @ t) = t"
    using takeWhile_digits [OF ip(2) nd] dropWhile_digits [OF ip(2) nd] by auto
  show "match_integer (ip @ t) = Some (ip, t)"
    using cs cd cm tw ip(3) by (auto simp: match_integer_def)
  show "match_integer (CHR ''-'' # ip @ t) = Some (CHR ''-'' # ip, t)"
    using cs cd cm tw ip(3) by (auto simp: match_integer_def)
qed

lemma match_number_float:
  assumes "float_repr_shape r" and "value_end rest"
  shows "match_number (r @ rest) = Some (PyFloat r, rest)"
proof -
  define body where "body = (case r of [] \<Rightarrow> r | c # r' \<Rightarrow> if c = CHR ''-'' then r' else r)"
  define ip where "ip = takeWhile is_digit body"
  define t where "t = dropWhile is_digit body"
  have shape: "ip \<noteq> []" "hd ip = CHR ''0'' \<Longrightarrow> ip = ''0''" "float_tail_shape t"
    using assms(1) unfolding float_repr_shape_def body_def ip_def t_def Let_def
    by (auto split: if_splits)
  have body: "body = ip @ t" by (simp add: ip_def t_def)
  have dig: "\<forall>c \<in> set ip. is_digit c" unfolding ip_def by (auto dest: set_takeWhileD)
  have nd: "no_digit_ahead (t @ rest)"
    using float_tail_shape_hd [OF shape(3)] by (cases t) (auto simp: no_digit_ahead_def)
  obtain frac ex r1 where tl: "match_frac (t @ rest) = (frac, r1)" "match_exp r1 = (ex, rest)"
      "frac @ ex = t" "frac \<noteq> [] \<or> ex \<noteq> []"
    using float_tail [OF shape(3) assms(2)] by blast
  have r: "r = ip @ t \<or> r = CHR ''-'' # ip @ t"
    using body unfolding body_def by (auto split: list.splits if_splits)
  have mi: "match_integer (ip @ t @ rest) = Some (ip, t @ rest)"
       "match_integer (CHR ''-'' # ip @ t @ rest) = Some (CHR ''-'' # ip, t @ rest)"
    using match_integer_digits [OF shape(1) dig shape(2) nd] by auto
  from r show ?thesis
  proof
    assume "r = ip @ t"
    then show ?thesis using mi(1) tl by (auto simp: match_number_def)
  next
    assume "r = CHR ''-'' # ip @ t"
    then show ?thesis using mi(2) tl by (auto simp: match_number_def)
  qed
qed

subsection \<open>Values\<close>

declare parse_array.simps [simp del] parse_object.simps [simp del]

lemma skip_ws_non_ws: "\<not> is_ws c \<Longrightarrow> skip_ws (c # cs) = c # cs"
  by (simp add: skip_ws_def)

lemma skip_ws_space: "skip_ws (CHR '' '' # cs) = skip_ws cs"
  by (simp add: skip_ws_def is_ws_def)

lemma int_repr_hd: "\<exists>c cs. int_repr i = c # cs \<and> (is_digit c \<or> c = CHR ''-'')"
proof (cases "i < 0")
  case True
  then show ?thesis by (simp add: int_repr_def)
next
  case False
  obtain c cs where cs: "nat_repr (nat i) = c # cs"
    using nat_repr_nonempty [of "nat i"] by (cases "nat_repr (nat i)") auto
  then have "is_digit c" using nat_repr_digits [of "nat i"] by simp
  with cs False show ?thesis by (simp add: int_repr_def)
qed

lemma float_repr_hd:
  assumes "float_repr_shape r"
  shows "\<exists>c cs. r = c # cs \<and> (is_digit c \<or> c = CHR ''-'')"
proof (cases r)
  case Nil
  with assms show ?thesis by (simp add: float_repr_shape_def)
next
  case (Cons c cs)
  show ?thesis
  proof (cases "c = CHR ''-''")
    case True
    with Cons show ?thesis by simp
  next
    case False
    with assms Cons have "takeWhile is_digit (c # cs) \<noteq> []"
      by (simp add: float_repr_shape_def Let_def)
    then have "is_digit c" by (simp split: if_splits)
    with Cons show ?thesis by simp
  qed
qed

lemma scan_once_number:
  assumes "number_start c" and "match_number (c # cs) = Some (v, r)"
  shows "scan_once (c # cs) = Some (v, r)"
proof -
  have "c \<noteq> CHR 0x22" "c \<noteq> CHR ''{''" "c \<noteq> CHR ''[''" "c \<noteq> CHR ''n''" "c \<noteq> CHR ''t''" "c \<noteq> CHR ''f''"
    using assms(1) by (auto simp: number_start_def is_digit_def)
  then show ?thesis using assms(2) by simp
qed

lemma number_start_props: "number_start c \<Longrightarrow> \<not> is_ws c \<and> c \<noteq> CHR '']'' \<and> c \<noteq> CHR ''}''"
  by (auto simp: number_start_def is_digit_def is_ws_def)

lemma json_dumps_hd:
  assumes "wf_py v"
  shows "\<exists>c cs. json_dumps v = c # cs \<and> \<not> is_ws c \<and> c \<noteq> CHR '']''"
proof (cases v)
  case (PyInt i)
  then show ?thesis
    using int_repr_hd [of i] number_start_props by (auto simp: number_start_def)
next
  case (PyFloat r)
  then show ?thesis
    using float_repr_hd [of r] assms number_start_props
    by (auto simp: number_start_def is_pyfloat_def is_ws_def)
qed (auto simp: is_ws_def encode_basestring_ascii_def)

lemma scan_once_int:
  assumes "value_end rest"
  shows "scan_once (int_repr i @ rest) = Some (PyInt i, rest)"
proof -
  obtain c cs where c: "int_repr i = c # cs" "number_start c"
    using int_repr_hd [of i] by (auto simp: number_start_def)
  have "match_number (c # cs @ rest) = Some (PyInt i, rest)"
    using match_number_int_repr [OF assms, of i] c(1) by simp
  then show ?thesis using scan_once_number [OF c(2)] c(1) by simp
qed

lemma scan_once_float:
  assumes "float_repr_shape r" and "value_end rest"
  shows "scan_once (r @ rest) = Some (PyFloat r, rest)"
proof -
  obtain c cs where c: "r = c # cs" "number_start c"
    using float_repr_hd [OF assms(1)] by (auto simp: number_start_def)
  have "match_number (c # cs @ rest) = Some (PyFloat r, rest)"
    using match_number_float [OF assms] c(1) by simp
  then show ?thesis using scan_once_number [OF c(2)] c(1) by simp
qed


lemma not_digit_not_0: "\<not> is_digit c \<Longrightarrow> c \<noteq> CHR ''0''"
  by (auto simp: is_digit_def)

lemma match_number_no_start: "\<not> is_digit c \<Longrightarrow> c \<noteq> CHR ''-'' \<Longrightarrow> match_number (c # cs) = None"
  by (simp add: match_number_def match_integer_def not_digit_not_0)

lemma match_number_minus_no_digit: "\<not> is_digit c \<Longrightarrow> match_number (CHR ''-'' # c # cs) = None"
  by (simp add: match_number_def match_integer_def not_digit_not_0)

lemma scan_once_constants:
  "scan_once (''NaN'' @ rest) = Some (PyFloat ''NaN'', rest)"
  "scan_once (''Infinity'' @ rest) = Some (PyFloat ''Infinity'', rest)"
  "scan_once (''-Infinity'' @ rest) = Some (PyFloat ''-Infinity'', rest)"
  by (simp_all add: match_number_no_start match_number_minus_no_digit is_digit_def)

lemma scan_once_pyfloat:
  assumes "is_pyfloat r" and "value_end rest"
  shows "scan_once (r @ rest) = Some (PyFloat r, rest)"
  using assms scan_once_float [of r rest] scan_once_constants [of rest]
  unfolding is_pyfloat_def by blast

declare scan_once.simps [simp del]

lemma json_dumps_nonempty: "wf_py v \<Longrightarrow> json_dumps v \<noteq> []"
  using json_dumps_hd [of v] by auto

lemma scan_once_open_bracket:
  "scan_once (CHR ''['' # cs) =
     (case skip_ws cs of
        [] \<Rightarrow> None
      | c1 # r1 \<Rightarrow>
          if c1 = CHR '']'' then Some (PyList [], r1)
          else (case parse_array (c1 # r1) of
                  None \<Rightarrow> None
                | Some (vs, r) \<Rightarrow> Some (PyList vs, r)))"
  by (simp add: scan_once.simps)

lemma scan_once_open_brace:
  "scan_once (CHR ''{'' # cs) =
     (case skip_ws cs of
        [] \<Rightarrow> None
      | c1 # r1 \<Rightarrow>
          if c1 = CHR ''}'' then Some (PyDict [], r1)
          else if c1 = CHR 0x22 then
            (case parse_object r1 of
               None \<Rightarrow> None
             | Some (pairs, r) \<Rightarrow> Some (PyDict (dict_of_pairs pairs), r))
          else None)"
  by (simp add: scan_once.simps)

lemma value_end_simps:
  "value_end []" "value_end (CHR '','' # r)" "value_end (CHR '']'' # r)" "value_end (CHR ''}'' # r)"
  by (simp_all add: value_end_def)

lemma skip_ws_dumps:
  "wf_py v \<Longrightarrow> skip_ws (json_dumps v @ r) = json_dumps v @ r"
  using json_dumps_hd [of v] by (auto simp: skip_ws_non_ws)

lemma join_items_Cons:
  "join_items (x # xs) = (if xs = [] then x else x @ '', '' @ join_items xs)"
  by (cases xs) simp_all

lemma parse_array_join:
  assumes "vs \<noteq> []" and "\<forall>v \<in> set vs. wf_py v \<and> reads_back v"
  shows "parse_array (join_items (map json_dumps vs) @ CHR '']'' # rest) = Some (vs, rest)"
  using assms
proof (induction vs)
  case Nil
  then show ?case by simp
next
  case (Cons v ws)
  then have v: "wf_py v" "reads_back v" by auto
  obtain c cs where c: "json_dumps v = c # cs" using json_dumps_hd [OF v(1)] by auto
  show ?case
  proof (cases "ws = []")
    case True
    have "scan_once (json_dumps v @ CHR '']'' # rest) = Some (v, CHR '']'' # rest)"
      using v(2) by (simp add: reads_back_def value_end_simps)
    then show ?thesis
      using True json_dumps_nonempty [OF v(1)]
      by (subst parse_array.simps) (simp add: skip_ws_non_ws is_ws_def)
  next
    case False
    let ?tl = "join_items (map json_dumps ws) @ CHR '']'' # rest"
    have IH: "parse_array ?tl = Some (ws, rest)" using Cons False by auto
    obtain w ws' where ws: "ws = w # ws'" using False by (cases ws) auto
    then have w: "wf_py w" using Cons.prems by auto
    have skip: "skip_ws ?tl = ?tl"
      using skip_ws_dumps [OF w] ws by (simp add: join_items_Cons)
    have "scan_once (json_dumps v @ CHR '','' # CHR '' '' # ?tl) = Some (v, CHR '','' # CHR '' '' # ?tl)"
      using v(2) by (simp add: reads_back_def value_end_simps)
    then show ?thesis
      using False json_dumps_nonempty [OF v(1)] IH skip
      by (subst parse_array.simps) (simp add: join_items_Cons skip_ws_non_ws is_ws_def skip_ws_space)
  qed
qed

lemma member_text_tl:
  "tl (member_text kv) = concat (map escape_char (fst kv)) @ CHR 0x22 # '': '' @ json_dumps (snd kv)"
  by (simp add: member_text_def encode_basestring_ascii_def)

lemma member_text_hd: "\<exists>cs. member_text kv = CHR 0x22 # cs"
  by (simp add: member_text_def encode_basestring_ascii_def)

lemma join_member_text_hd:
  assumes "kvs \<noteq> []"
  shows "\<exists>ms. join_items (map member_text kvs) @ t = CHR 0x22 # ms"
proof -
  obtain w ws where ws: "kvs = w # ws" using assms by (cases kvs) auto
  obtain cs where cs: "member_text w = CHR 0x22 # cs" using member_text_hd [of w] by blast
  show ?thesis
  proof (cases "ws = []")
    case True
    with ws cs show ?thesis by simp
  next
    case False
    with ws cs show ?thesis by (simp add: join_items_Cons)
  qed
qed

lemma parse_object_join:
  assumes "kvs \<noteq> []"
    and "\<forall>kv \<in> set kvs. wf_str (fst kv) \<and> wf_py (snd kv) \<and> reads_back (snd kv)"
  shows "parse_object (tl (join_items (map member_text kvs) @ CHR ''}'' # rest)) = Some (kvs, rest)"
  using assms
proof (induction kvs)
  case Nil
  then show ?case by simp
next
  case (Cons kv ws)
  obtain k v where kv: "kv = (k, v)" by (cases kv)
  with Cons.prems have v: "wf_py v" "reads_back v" and k: "wf_str k" by auto
  obtain c cs where c: "json_dumps v = c # cs" using json_dumps_hd [OF v(1)] by auto
  have tl_eq: "\<And>t. tl (member_text kv @ t) =
      concat (map escape_char k) @ CHR 0x22 # CHR '':'' # CHR '' '' # json_dumps v @ t"
    using kv by (simp add: member_text_def encode_basestring_ascii_def)
  have colon: "skip_ws (CHR '':'' # t) = CHR '':'' # t" for t
    by (simp add: skip_ws_non_ws is_ws_def)
  show ?case
  proof (cases "ws = []")
    case True
    have so: "scan_once (json_dumps v @ CHR ''}'' # rest) = Some (v, CHR ''}'' # rest)"
      using v(2) by (simp add: reads_back_def value_end_simps)
    have "parse_object (concat (map escape_char k) @ CHR 0x22 # CHR '':'' # CHR '' '' # json_dumps v @ CHR ''}'' # rest)
          = Some ([(k, v)], rest)"
      using so json_dumps_nonempty [OF v(1)]
      by (subst parse_object.simps)
         (simp add: scanstring_body [OF k] colon skip_ws_space skip_ws_dumps [OF v(1)] skip_ws_non_ws is_ws_def)
    then show ?thesis using True kv tl_eq [of "CHR ''}'' # rest"] by simp
  next
    case False
    let ?next = "join_items (map member_text ws) @ CHR ''}'' # rest"
    have IH: "parse_object (tl ?next) = Some (ws, rest)" using Cons False by auto
    obtain ms where ms: "?next = CHR 0x22 # ms"
      using join_member_text_hd [OF False] by blast
    have so: "scan_once (json_dumps v @ CHR '','' # CHR '' '' # ?next) = Some (v, CHR '','' # CHR '' '' # ?next)"
      using v(2) by (simp add: reads_back_def value_end_simps)
    have "parse_object (concat (map escape_char k) @ CHR 0x22 # CHR '':'' # CHR '' '' # json_dumps v
              @ CHR '','' # CHR '' '' # ?next)
          = Some ((k, v) # ws, rest)"
      using so json_dumps_nonempty [OF v(1)] IH ms
      by (subst parse_object.simps)
         (simp add: scanstring_body [OF k] colon skip_ws_space skip_ws_dumps [OF v(1)] skip_ws_non_ws is_ws_def)
    then show ?thesis
      using False kv tl_eq [of "CHR '','' # CHR '' '' # ?next"] by (simp add: join_items_Cons)
  qed
qed

lemma dict_setitem_new: "fst kv \<notin> fst ` set d \<Longrightarrow> dict_setitem d kv = d @ [kv]"
  by (induction d) auto

lemma foldl_dict_setitem:
  "distinct (map fst (d @ kvs)) \<Longrightarrow> foldl dict_setitem d kvs = d @ kvs"
proof (induction kvs arbitrary: d)
  case Nil
  then show ?case by simp
next
  case (Cons kv kvs)
  then have "fst kv \<notin> fst ` set d" by auto
  then have "dict_setitem d kv = d @ [kv]" by (rule dict_setitem_new)
  moreover have "distinct (map fst ((d @ [kv]) @ kvs))" using Cons.prems by simp
  ultimately show ?case using Cons.IH [of "d @ [kv]"] by simp
qed

lemma dict_of_pairs_distinct: "distinct (map fst kvs) \<Longrightarrow> dict_of_pairs kvs = kvs"
  using foldl_dict_setitem [of "[]" kvs] by (simp add: dict_of_pairs_def)

lemma json_dumps_PyDict:
  "json_dumps (PyDict kvs) = CHR ''{'' # join_items (map member_text kvs) @ ''}''"
proof -
  have "(\<lambda>kv. encode_basestring_ascii (fst kv) @ '': '' @ json_dumps (snd kv)) = member_text"
    by (rule ext) (simp add: member_text_def)
  then show ?thesis by simp
qed

lemma reads_back_wf: "wf_py v \<Longrightarrow> reads_back v"
proof (induction v)
  case PyNone
  show ?case by (simp add: reads_back_def scan_once.simps)
next
  case (PyBool b)
  show ?case by (simp add: reads_back_def scan_once.simps)
next
  case (PyInt i)
  show ?case by (simp add: reads_back_def scan_once_int)
next
  case (PyFloat r)
  then show ?case by (simp add: reads_back_def scan_once_pyfloat)
next
  case (PyStr s)
  then show ?case by (simp add: reads_back_def scan_once_string)
next
  case (PyList vs)
  then have all: "\<forall>v \<in> set vs. wf_py v \<and> reads_back v" by (auto simp: list_all_iff)
  show ?case
  proof (cases "vs = []")
    case True
    then show ?thesis by (simp add: reads_back_def scan_once_open_bracket skip_ws_non_ws is_ws_def)
  next
    case False
    then obtain w ws where ws: "vs = w # ws" by (cases vs) auto
    then have w: "wf_py w" using all by simp
    obtain c cs where c: "json_dumps w = c # cs" "\<not> is_ws c" "c \<noteq> CHR '']''"
      using json_dumps_hd [OF w] by auto
    have hd: "\<exists>cs'. join_items (map json_dumps vs) @ CHR '']'' # rest = c # cs'" for rest
      using ws c(1) by (simp add: join_items_Cons)
    show ?thesis
      unfolding reads_back_def
    proof (intro allI impI)
      fix rest
      obtain cs' where cs': "join_items (map json_dumps vs) @ CHR '']'' # rest = c # cs'"
        using hd by blast
      have "parse_array (c # cs') = Some (vs, rest)"
        using parse_array_join [OF False all, of rest] cs' by simp
      then have "scan_once (CHR ''['' # c # cs') = Some (PyList vs, rest)"
        using c(2,3) by (simp add: scan_once_open_bracket skip_ws_non_ws)
      then show "scan_once (json_dumps (PyList vs) @ rest) = Some (PyList vs, rest)"
        using cs' by simp
    qed
  qed
next
  case (PyDict kvs)
  then have dist: "distinct (map fst kvs)"
    and all: "\<forall>kv \<in> set kvs. wf_str (fst kv) \<and> wf_py (snd kv) \<and> reads_back (snd kv)"
    by (auto simp: list_all_iff snds.simps)
  show ?case
  proof (cases "kvs = []")
    case True
    then show ?thesis
      by (simp add: reads_back_def scan_once_open_brace skip_ws_non_ws is_ws_def)
  next
    case False
    then obtain w ws where ws: "kvs = w # ws" by (cases kvs) auto
    show ?thesis
      unfolding reads_back_def
    proof (intro allI impI)
      fix rest
      obtain ms where ms: "join_items (map member_text kvs) @ CHR ''}'' # rest = CHR 0x22 # ms"
        using join_member_text_hd [OF False] by blast
      have "parse_object ms = Some (kvs, rest)"
        using parse_object_join [OF False all, of rest] ms by simp
      then have "scan_once (CHR ''{'' # CHR 0x22 # ms) = Some (PyDict kvs, rest)"
        by (simp add: scan_once_open_brace skip_ws_non_ws is_ws_def dict_of_pairs_distinct [OF dist])
      then show "scan_once (json_dumps (PyDict kvs) @ rest) = Some (PyDict kvs, rest)"
        using ms by (simp only: json_dumps_PyDict) simp
    qed
  qed
qed

lemma json_loads_json_dumps: "wf_py v \<Longrightarrow> json_loads (json_dumps v) = Some v"
proof -
  assume wf: "wf_py v"
  have "scan_once (json_dumps v @ []) = Some (v, [])"
    using reads_back_wf [OF wf] by (simp add: reads_back_def value_end_simps del: append_Nil2)
  then show ?thesis
    using skip_ws_dumps [OF wf, of "[]"] by (simp add: json_loads_def skip_ws_def)
qed

section \<open>Persistence\<close>

lemma wf_str_code_points: "wf_str (code_points s)"
proof -
  have "scalar_value (of_char c)" for c :: char
  proof -
    have "(of_char c :: nat) < 256" by (rule of_char_lt_256)
    then have "(of_char c :: nat) < 0xD800" by linarith
    then show ?thesis by (simp only: scalar_value_def) blast
  qed
  then show ?thesis by (simp add: wf_str_def code_points_def list_all_iff)
qed










text \<open>
  Escapes above the 8-bit characters: \<^verbatim>\<open>["\u0100"]\<close> is a list with a string of one code
  point, and the escapes of a surrogate pair are read as the one code point of the pair.
\<close>

lemma json_loads_u_escapes:
  "json_loads (''['' @ [CHR 0x22, CHR 0x5C] @ ''u0100'' @ [CHR 0x22] @ '']'') =
     Some (PyList [PyStr [0x100]])"
  "json_loads ([CHR 0x22, CHR 0x5C] @ ''ud83d'' @ [CHR 0x5C] @ ''ude00'' @ [CHR 0x22]) =
     Some (PyStr [0x1F600])"
  by (simp_all add: json_loads_def skip_ws_def is_ws_def scan_once.simps parse_array.simps
      following_escape_def decode_uXXXX_def hex_val_def is_high_surrogate_def is_low_surrogate_def)

text \<open>
  Claim C3, as stated, fails: a file with the JSON text \<^verbatim>\<open>"not json"\<close> (a string), with
  \<^verbatim>\<open>[1, 2]\<close> or with \<^verbatim>\<open>{}\<close> is valid JSON that is not an array of record objects, and it is
  loaded without any error.
\<close>

theorem load_does_not_check_what_it_reads:
  "load_inventory (Some (CHR 0x22 # ''not json'' @ [CHR 0x22])) =
     Inr (PyStr (code_points ''not json'')) \<and>
   load_inventory (Some ''[1, 2]'') = Inr (PyList [PyInt 1, PyInt 2]) \<and>
   load_inventory (Some ''{}'') = Inr (PyDict [])"
  by (simp add: load_inventory_def init_session_state_def read_error_def json_loads_def skip_ws_def is_ws_def
      scan_once.simps parse_array.simps match_number_def match_integer_def match_frac_def
      match_exp_def is_digit_def int_of_literal_def nat_of_digits_def code_points_def)

lemma scan_once_no_start: "\<not> can_start_value c \<Longrightarrow> scan_once (c # cs) = None"
  by (simp add: can_start_value_def scan_once.simps match_number_no_start)

lemma json_loads_no_start: "no_value_start text \<Longrightarrow> json_loads text = None"
  by (cases "skip_ws text")
     (simp_all add: no_value_start_def json_loads_def scan_once.simps(1) scan_once_no_start)

text \<open>
  Claim C3, amended. The start of a session gives the empty list when the file does not
  exist, whatever else happens. When the file exists and the read is not interrupted
  by the file system or a limit of the interpreter, it gives exactly what the decoder
  gives for the text of the file, with no check of the value: it raises the decoder's
  error when the decoder rejects the text, and it returns the decoded value otherwise.
  Every well-formed value, of any shape, is returned without error from the text that
  \<^verbatim>\<open>json.dump\<close> writes for it. Every text that is empty or blank, or whose first
  character after the blanks cannot begin a JSON value, raises the decoder's error,
  and so does \<^verbatim>\<open>not json\<close> without quotes. An interrupted read raises the error of the
  interruption.
\<close>

theorem session_start_returns_what_the_decoder_gives:
  "(\<forall>env. init_session_state env None = Inr (PyList [])) \<and>
   (\<forall>text. init_session_state Read_ok (Some text) =
      (case json_loads text of None \<Rightarrow> Inl JSONDecodeError | Some v \<Rightarrow> Inr v)) \<and>
   (\<forall>v. wf_py v \<longrightarrow> init_session_state Read_ok (Some (json_dumps v)) = Inr v) \<and>
   (\<forall>text. no_value_start text \<longrightarrow> init_session_state Read_ok (Some text) = Inl JSONDecodeError) \<and>
   init_session_state Read_ok (Some ''not json'') = Inl JSONDecodeError \<and>
   (\<forall>env e text. read_error env = Some e \<longrightarrow> init_session_state env (Some text) = Inl e)"
proof -
  have a: "\<forall>env. init_session_state env None = Inr (PyList [])"
    by (simp add: init_session_state_def)
  have b: "\<forall>text. init_session_state Read_ok (Some text) =
      (case json_loads text of None \<Rightarrow> Inl JSONDecodeError | Some v \<Rightarrow> Inr v)"
    by (simp add: init_session_state_def read_error_def)
  have c: "\<forall>v. wf_py v \<longrightarrow> init_session_state Read_ok (Some (json_dumps v)) = Inr v"
    by (simp add: init_session_state_def read_error_def json_loads_json_dumps)
  have d: "\<forall>text. no_value_start text \<longrightarrow> init_session_state Read_ok (Some text) = Inl JSONDecodeError"
    by (simp add: init_session_state_def read_error_def json_loads_no_start)
  have e: "init_session_state Read_ok (Some ''not json'') = Inl JSONDecodeError"
    by (simp add: init_session_state_def read_error_def json_loads_def skip_ws_def is_ws_def
        scan_once.simps match_number_def match_integer_def is_digit_def)
  have f: "\<forall>env e text. read_error env = Some e \<longrightarrow> init_session_state env (Some text) = Inl e"
    by (simp add: init_session_state_def)
  from a b c d e f show ?thesis by blast
qed

theorem session_start_returns_what_the_decoder_gives_witness:
  "wf_py (PyDict [(code_points ''id'', PyStr (code_points ''one''))]) \<and>
   init_session_state Read_ok (Some (json_dumps (PyDict [(code_points ''id'', PyStr (code_points ''one''))]))) =
     Inr (PyDict [(code_points ''id'', PyStr (code_points ''one''))]) \<and>
   no_value_start [] \<and>
   init_session_state Read_ok (Some []) = Inl JSONDecodeError \<and>
   no_value_start '' <html>'' \<and>
   init_session_state Read_ok (Some '' <html>'') = Inl JSONDecodeError \<and>
   read_error Read_os_error = Some OSError \<and>
   init_session_state Read_os_error (Some ''[1, 2]'') = Inl OSError"
proof -
  have h: "wf_py (PyDict [(code_points ''id'', PyStr (code_points ''one''))])"
    by (simp add: wf_str_code_points)
  have n: "no_value_start []" "no_value_start '' <html>''"
    by (simp_all add: no_value_start_def skip_ws_def is_ws_def can_start_value_def is_digit_def)
  have r: "read_error Read_os_error = Some OSError" by (simp add: read_error_def)
  show ?thesis
    using h n r session_start_returns_what_the_decoder_gives by blast
qed

section \<open>Searching by name\<close>

lemma is_substring_Nil: "is_substring [] s"
  by (cases s) simp_all

lemma re_atoms_literal: "\<forall>c \<in> set t. \<not> re_special c \<Longrightarrow> re_atoms t = Some (map Lit t)"
  by (induction t) (auto simp: re_special_def)

lemma match_here_literal:
  "match_here (map Lit t) s = prefix (map py_lower t) (map py_lower s)"
  by (induction t arbitrary: s) (case_tac s; auto)+

lemma re_search_literal:
  "re_search (map Lit t) s = is_substring (map py_lower t) (map py_lower s)"
  by (induction s) (auto simp: match_here_literal)

lemma filter_by_name_literal:
  assumes "\<forall>c \<in> set t. \<not> re_special c"
  shows "filter_by_name t df = Rows [row \<leftarrow> df. contains_ignoring_case t (name row)]"
proof (cases t)
  case Nil
  then show ?thesis
    by (simp add: filter_by_name_def contains_ignoring_case_def is_substring_Nil)
next
  case (Cons c cs)
  with assms have "\<not> re_special c" by simp
  then have "c \<noteq> CHR ''*''" "c \<noteq> CHR ''+''" "c \<noteq> CHR ''?''" "c \<noteq> CHR '')''"
    by (auto simp: re_special_def)
  then have "re_compile t = Pattern (map Lit t)"
    using Cons re_atoms_literal [OF assms] by (simp add: re_compile_def)
  moreover have "t \<noteq> []" using Cons by simp
  ultimately show ?thesis
    by (simp add: filter_by_name_def contains_ignoring_case_def re_search_literal)
qed

lemma filter_by_name_empty_term: "filter_by_name [] df = Rows df"
  by (simp add: filter_by_name_def)

text \<open>
  Claim C2 at the inputs where the code departs from it. The search term \<^verbatim>\<open>.\<close> keeps
  both records although no name contains a dot, and the search term \<^verbatim>\<open>*\<close> raises
  \<^verbatim>\<open>re.error\<close>. (For a term without special characters the filter is the
  case-insensitive substring search, and the empty term keeps every row:
  \<open>filter_by_name_literal\<close>, \<open>filter_by_name_empty_term\<close>.)
\<close>

theorem name_filter_reads_the_term_as_a_regular_expression:
  "filter_by_name ''.'' [fern, goldfish] = Rows [fern, goldfish] \<and>
   [row \<leftarrow> [fern, goldfish]. contains_ignoring_case ''.'' (name row)] = [] \<and>
   filter_by_name ''*'' [fern, goldfish] = Raises Re_error"
  by code_simp

end
